theory Spec2Isabelle
  imports Main
begin

section \<open>Data model\<close>

text \<open>
  A catalog item as \<^verbatim>\<open>check.py\<close> uses it: the file's \<open>path\<close>, its \<open>format\<close> tag and the
  flexible attribute \<open>checksum\<close>, which is \<open>None\<close> while the key is absent from the item.
  File contents and digests are byte strings; a \<open>char\<close> is a byte.
\<close>

record item =
  path :: string
  format :: string
  checksum :: "string option"

type_synonym files = "string \<rightharpoonup> string"

text \<open>The exceptions the module raises or lets through, as values.\<close>

datatype error =
    ChecksumError string string
  | IntegrityError string string
  | IOError string
  | OSError string
  | KeyError string
  | IndexError
  | UserError string
  | SystemExit int
  | UnboundLocalError string
  | AttributeError string
  | CalledProcessError "string list"

text \<open>
  The observable effects of a run, in the order the code performs them: subprocesses
  spawned, files removed, items stored in the catalog, prompts, printed lines and log
  records.
\<close>

datatype event =
    Spawn "string list"
  | Remove string
  | Store item
  | Prompt string
  | Print string
  | Progress string nat nat
  | LogOK string
  | LogFailed string
  | LogWarning string string
  | LogError error
  | LogFailedChecksum string
  | LogFixed string
  | LogInfo string
  | LogWarn string

datatype call_result = CallOK | CallNonZero | CallOSError

text \<open>
  What the module takes from outside: \<open>hashlib.sha256(...).hexdigest()\<close>, \<open>subprocess.Popen\<close>
  followed by \<open>communicate()\<close> (the output, the return code and the files the process
  leaves behind), \<open>subprocess.check_call\<close>, and \<open>displayable_path\<close> and \<open>input_yn\<close> of
  the host.
\<close>

record env =
  sha256_hexdigest :: "string \<Rightarrow> string"
  popen :: "string list \<Rightarrow> files \<Rightarrow> (string \<times> string \<times> int) \<times> files"
  check_call :: "string list \<Rightarrow> call_result"
  displayable_path :: "string \<Rightarrow> string"
  input_yn :: "string \<Rightarrow> bool"

section \<open>Digest engine\<close>

text \<open>\<open>open(item.path, 'rb')\<close> raises \<open>IOError\<close> when the file cannot be read.\<close>

definition compute_checksum :: "env \<Rightarrow> files \<Rightarrow> item \<Rightarrow> error + string" where
  "compute_checksum e fs it =
     (case fs (path it) of
        None \<Rightarrow> Inl (IOError (path it))
      | Some content \<Rightarrow> Inr (sha256_hexdigest e content))"

definition checksum_mismatch :: string where
  "checksum_mismatch = ''checksum did not match value in library.''"

text \<open>
  \<open>item['checksum']\<close> is evaluated before the digest is computed and raises \<open>KeyError\<close>
  when the item has no such attribute.
\<close>

definition verify_checksum :: "env \<Rightarrow> files \<Rightarrow> item \<Rightarrow> error + unit" where
  "verify_checksum e fs it =
     (case checksum it of
        None \<Rightarrow> Inl (KeyError ''checksum'')
      | Some c \<Rightarrow>
          (case compute_checksum e fs it of
             Inl err \<Rightarrow> Inl err
           | Inr d \<Rightarrow>
               if c \<noteq> d then Inl (ChecksumError (path it) checksum_mismatch)
               else Inr ()))"

definition set_checksum :: "env \<Rightarrow> files \<Rightarrow> item \<Rightarrow> (error + item) \<times> event list" where
  "set_checksum e fs it =
     (case compute_checksum e fs it of
        Inl err \<Rightarrow> (Inl err, [])
      | Inr d \<Rightarrow> (let it' = it\<lparr>checksum := Some d\<rparr> in (Inr it', [Store it'])))"

text \<open>The truth value of \<open>item.get('checksum', None)\<close>: an empty string is false.\<close>

definition has_checksum :: "item \<Rightarrow> bool" where
  "has_checksum it = (case checksum it of None \<Rightarrow> False | Some c \<Rightarrow> c \<noteq> [])"

section \<open>Text helpers\<close>

text \<open>\<open>s.split('\n')\<close>: the pieces between newlines; never an empty list.\<close>

fun split_newline :: "string \<Rightarrow> string list" where
  "split_newline [] = [[]]"
| "split_newline (c # cs) =
     (if c = CHR 0x0A then [] # split_newline cs
      else (case split_newline cs of [] \<Rightarrow> [[c]] | l # ls \<Rightarrow> (c # l) # ls))"

fun strip_prefix :: "string \<Rightarrow> string \<Rightarrow> string option" where
  "strip_prefix [] s = Some s"
| "strip_prefix (p # ps) [] = None"
| "strip_prefix (p # ps) (c # cs) = (if p = c then strip_prefix ps cs else None)"

text \<open>
  A greedy \<open>.*\<close> followed by a pattern \<open>f\<close> that consumes the rest of the line: the match
  starts at the rightmost position where \<open>f\<close> succeeds. The lines handed to the matchers
  come from \<open>split('\n')\<close> and hold no newline, so \<open>.\<close> matches every character of them.
\<close>

fun rightmost :: "(string \<Rightarrow> string option) \<Rightarrow> string \<Rightarrow> string option" where
  "rightmost f [] = f []"
| "rightmost f (c # cs) =
     (case rightmost f cs of Some g \<Rightarrow> Some g | None \<Rightarrow> f (c # cs))"

text \<open>The first line on which a matcher succeeds, with its group 1.\<close>

fun first_match :: "(string \<Rightarrow> string option) \<Rightarrow> string list \<Rightarrow> string option" where
  "first_match f [] = None"
| "first_match f (l # ls) =
     (case f l of Some g \<Rightarrow> Some g | None \<Rightarrow> first_match f ls)"

definition digit_char :: "nat \<Rightarrow> char" where
  "digit_char n = ''0123456789'' ! n"

fun str_nat :: "nat \<Rightarrow> string" where
  "str_nat n = (if n < 10 then [digit_char n] else str_nat (n div 10) @ [digit_char (n mod 10)])"

declare str_nat.simps [simp del]

fun join :: "string \<Rightarrow> string list \<Rightarrow> string" where
  "join sep [] = []"
| "join sep [s] = s"
| "join sep (s # t # ts) = s @ sep @ join sep (t # ts)"

section \<open>Integrity checkers\<close>

text \<open>
  The subclasses of \<open>IntegrityChecker\<close>, in the order the module defines them, which is
  the order \<open>__subclasses__()\<close> lists them in.
\<close>

datatype checker = MP3Val | FlacTest | OggzValidate

fun program :: "checker \<Rightarrow> string" where
  "program MP3Val = ''mp3val''"
| "program FlacTest = ''flac''"
| "program OggzValidate = ''oggz-validate''"

fun arguments :: "checker \<Rightarrow> string list" where
  "arguments MP3Val = []"
| "arguments FlacTest = [''--test'', ''--silent'']"
| "arguments OggzValidate = []"

fun formats :: "checker \<Rightarrow> string list" where
  "formats MP3Val = [''MP3'']"
| "formats FlacTest = [''FLAC'']"
| "formats OggzValidate = [''OGG'']"

definition IntegrityChecker_all :: "checker list" where
  "IntegrityChecker_all = [MP3Val, FlacTest, OggzValidate]"

text \<open>
  \<open>available\<close> catches \<open>OSError\<close> only: a probe that exits with a non-zero status raises
  \<open>CalledProcessError\<close>, which passes through.
\<close>

definition available :: "env \<Rightarrow> checker \<Rightarrow> error + bool" where
  "available e c =
     (case check_call e [program c, ''-v''] of
        CallOSError \<Rightarrow> Inr False
      | CallOK \<Rightarrow> Inr True
      | CallNonZero \<Rightarrow> Inl (CalledProcessError [program c, ''-v'']))"

fun available_among :: "env \<Rightarrow> checker list \<Rightarrow> error + checker list" where
  "available_among e [] = Inr []"
| "available_among e (c # cs) =
     (case available e c of
        Inl err \<Rightarrow> Inl err
      | Inr b \<Rightarrow>
          (case available_among e cs of
             Inl err \<Rightarrow> Inl err
           | Inr r \<Rightarrow> Inr (if b then c # r else r)))"

definition allAvailable :: "env \<Rightarrow> error + checker list" where
  "allAvailable e = available_among e IntegrityChecker_all"

fun can_fix :: "checker \<Rightarrow> item \<Rightarrow> bool" where
  "can_fix MP3Val it = (format it \<in> set (formats MP3Val))"
| "can_fix FlacTest it = False"
| "can_fix OggzValidate it = False"

text \<open>\<open>fixer\<close> returns the first available checker that can fix the item, or \<open>None\<close>.\<close>

definition fixer :: "env \<Rightarrow> item \<Rightarrow> error + checker option" where
  "fixer e it =
     (case allAvailable e of
        Inl err \<Rightarrow> Inl err
      | Inr av \<Rightarrow> Inr (find (\<lambda>c. can_fix c it) av))"

subsection \<open>Parsers of the validators' output\<close>

definition is_hex :: "char \<Rightarrow> bool" where
  "is_hex c = (c \<in> set ''0123456789abcdef'')"

text \<open>\<open> \(offset 0x[0-9a-f]+\): (.*)$\<close> at the start of \<open>s\<close>.\<close>

definition offset_here :: "string \<Rightarrow> string option" where
  "offset_here s =
     (case strip_prefix '' (offset 0x'' s of
        None \<Rightarrow> None
      | Some r \<Rightarrow>
          if takeWhile is_hex r = [] then None
          else strip_prefix ''): '' (dropWhile is_hex r))"

text \<open>\<open>^WARNING: .* \(offset 0x[0-9a-f]+\): (.*)$\<close>, giving group 1.\<close>

definition log_matcher :: "string \<Rightarrow> string option" where
  "log_matcher line =
     (case strip_prefix ''WARNING: '' line of
        None \<Rightarrow> None
      | Some r \<Rightarrow> rightmost offset_here r)"

text \<open>\<open>: ERROR,? (.*)$\<close> at the start of \<open>s\<close>.\<close>

definition error_here :: "string \<Rightarrow> string option" where
  "error_here s =
     (case strip_prefix '': ERROR'' s of
        None \<Rightarrow> None
      | Some r \<Rightarrow>
          (case strip_prefix '', '' r of
             Some g \<Rightarrow> Some g
           | None \<Rightarrow> strip_prefix '' '' r))"

text \<open>\<open>^.*: ERROR,? (.*)$\<close>, giving group 1.\<close>

definition error_matcher :: "string \<Rightarrow> string option" where
  "error_matcher line = rightmost error_here line"

definition MP3Val_parse :: "string \<Rightarrow> string \<Rightarrow> int \<Rightarrow> string \<Rightarrow> error + unit" where
  "MP3Val_parse out err returncode p =
     (case first_match log_matcher (split_newline out) of
        Some reason \<Rightarrow> Inl (IntegrityError p reason)
      | None \<Rightarrow> Inr ())"

definition FlacTest_parse :: "string \<Rightarrow> string \<Rightarrow> int \<Rightarrow> string \<Rightarrow> error + unit" where
  "FlacTest_parse out err returncode p =
     (if returncode = 0 then Inr ()
      else (case first_match error_matcher (split_newline err) of
              Some reason \<Rightarrow> Inl (IntegrityError p reason)
            | None \<Rightarrow> Inr ()))"

text \<open>\<open>stderr.split('\n')[1]\<close> raises \<open>IndexError\<close> when there is no second piece.\<close>

definition OggzValidate_parse :: "string \<Rightarrow> string \<Rightarrow> int \<Rightarrow> string \<Rightarrow> error + unit" where
  "OggzValidate_parse out err returncode p =
     (if returncode = 0 then Inr ()
      else (let pieces = split_newline err in
            if length pieces < 2 then Inl IndexError
            else Inl (IntegrityError p (filter (\<lambda>c. c \<noteq> CHR '':'') (pieces ! 1)))))"

fun parse :: "checker \<Rightarrow> string \<Rightarrow> string \<Rightarrow> int \<Rightarrow> string \<Rightarrow> error + unit" where
  "parse MP3Val = MP3Val_parse"
| "parse FlacTest = FlacTest_parse"
| "parse OggzValidate = OggzValidate_parse"

subsection \<open>Running a validator and the repair tool\<close>

definition validate_cmd :: "checker \<Rightarrow> item \<Rightarrow> string list" where
  "validate_cmd c it = [program c] @ arguments c @ [path it]"

definition run :: "env \<Rightarrow> checker \<Rightarrow> item \<Rightarrow> files \<Rightarrow> (error + unit) \<times> files \<times> event list" where
  "run e c it fs =
     (if format it \<notin> set (formats c) then (Inr (), fs, [])
      else (case popen e (validate_cmd c it) fs of
              ((out, err, returncode), fs') \<Rightarrow>
                (parse c out err returncode (path it), fs', [Spawn (validate_cmd c it)])))"

text \<open>\<open>check\<close> is an alias of \<open>run\<close>.\<close>

definition IntegrityChecker_check ::
  "env \<Rightarrow> checker \<Rightarrow> item \<Rightarrow> files \<Rightarrow> (error + unit) \<times> files \<times> event list" where
  "IntegrityChecker_check e c it fs = run e c it fs"

fun run_each :: "env \<Rightarrow> checker list \<Rightarrow> item \<Rightarrow> files \<Rightarrow> (error + unit) \<times> files \<times> event list" where
  "run_each e [] it fs = (Inr (), fs, [])"
| "run_each e (c # cs) it fs =
     (case run e c it fs of
        (Inl err, fs', ev) \<Rightarrow> (Inl err, fs', ev)
      | (Inr u, fs', ev) \<Rightarrow>
          (case run_each e cs it fs' of (r, fs'', ev') \<Rightarrow> (r, fs'', ev @ ev')))"

definition verify_integrity :: "env \<Rightarrow> item \<Rightarrow> files \<Rightarrow> (error + unit) \<times> files \<times> event list" where
  "verify_integrity e it fs =
     (case allAvailable e of
        Inl err \<Rightarrow> (Inl err, fs, [])
      | Inr av \<Rightarrow> run_each e av it fs)"

definition repair_cmd :: "item \<Rightarrow> string list" where
  "repair_cmd it = [program MP3Val, ''-f'', path it]"

definition backup_path :: "item \<Rightarrow> string" where
  "backup_path it = path it @ ''.bak''"

text \<open>
  \<open>MP3Val.fix\<close>: the repair tool runs on the file in place; without backup the file
  \<open><path>.bak\<close> is removed afterwards. \<open>os.remove\<close> raises \<open>OSError\<close> when the file does not
  exist.
\<close>

definition MP3Val_fix :: "env \<Rightarrow> item \<Rightarrow> bool \<Rightarrow> files \<Rightarrow> (error + unit) \<times> files \<times> event list" where
  "MP3Val_fix e it backup fs =
     (case popen e (repair_cmd it) fs of
        (output, fs') \<Rightarrow>
          if \<not> backup then
            (if fs' (backup_path it) = None
             then (Inl (OSError (backup_path it)), fs', [Spawn (repair_cmd it)])
             else (Inr (), fs'(backup_path it := None),
                   [Spawn (repair_cmd it), Remove (backup_path it)]))
          else (Inr (), fs', [Spawn (repair_cmd it)]))"

text \<open>Only \<open>MP3Val\<close> defines \<open>fix\<close>; on the other checkers the attribute is missing.\<close>

fun checker_fix ::
  "env \<Rightarrow> checker \<Rightarrow> item \<Rightarrow> bool \<Rightarrow> files \<Rightarrow> (error + unit) \<times> files \<times> event list" where
  "checker_fix e MP3Val it backup fs = MP3Val_fix e it backup fs"
| "checker_fix e FlacTest it backup fs = (Inl (AttributeError ''fix''), fs, [])"
| "checker_fix e OggzValidate it backup fs = (Inl (AttributeError ''fix''), fs, [])"

section \<open>The command\<close>

text \<open>
  The settings of a \<open>CheckCommand\<close> that the workflows read. The size of the thread pool
  is left out: the pool is modelled by a loop that handles the items one after the
  other, in the order of the list.
\<close>

record command =
  quiet :: bool
  isatty :: bool
  check_integrity :: bool

definition log_msg :: "command \<Rightarrow> string \<Rightarrow> event list" where
  "log_msg cmd msg = (if quiet cmd then [] else [Print msg])"

definition log_progress :: "command \<Rightarrow> string \<Rightarrow> nat \<Rightarrow> nat \<Rightarrow> event list" where
  "log_progress cmd msg index totl =
     (if quiet cmd \<or> \<not> isatty cmd then [] else [Progress msg index totl])"

text \<open>
  \<open>execute_with_progress\<close>: \<open>func\<close> is applied to every element of \<open>args\<close>; the state \<open>'s\<close>
  holds what the closure \<open>func\<close> shares between its calls. An exception that \<open>func\<close> lets
  through is raised again when the result is taken from the pool, which ends the loop.
\<close>

fun progress_loop ::
  "command \<Rightarrow> ('s \<Rightarrow> 'a \<Rightarrow> (error + 's) \<times> event list) \<Rightarrow> string \<Rightarrow> nat \<Rightarrow> nat \<Rightarrow>
   'a list \<Rightarrow> 's \<Rightarrow> (error + 's) \<times> event list" where
  "progress_loop cmd func msg totl finished [] s = (Inr s, [])"
| "progress_loop cmd func msg totl finished (x # xs) s =
     (case func s x of
        (Inl err, ev) \<Rightarrow> (Inl err, ev)
      | (Inr s', ev) \<Rightarrow>
          (case progress_loop cmd func msg totl (finished + 1) xs s' of
             (r, ev') \<Rightarrow> (r, ev @ log_progress cmd msg (finished + 1) totl @ ev')))"

definition execute_with_progress ::
  "command \<Rightarrow> ('s \<Rightarrow> 'a \<Rightarrow> (error + 's) \<times> event list) \<Rightarrow> 'a list \<Rightarrow> string \<Rightarrow>
   's \<Rightarrow> (error + 's) \<times> event list" where
  "execute_with_progress cmd func args msg s =
     progress_loop cmd func msg (length args) 0 args s"

subsection \<open>check\<close>

record status =
  failures :: nat
  integrity :: nat

definition no_checkers_warning :: string where
  "no_checkers_warning =
     ''No integrity checkers found. Run '' @ [CHR 0x27] @ ''beet check --list -tools''
     @ [CHR 0x27]"

text \<open>
  The head of \<open>CheckCommand.check\<close>: the integrity flag that the run uses. The list of
  available checkers is asked for only when integrity checking is requested.
\<close>

definition check_setup ::
  "env \<Rightarrow> command \<Rightarrow> bool \<Rightarrow> bool option \<Rightarrow> (error + bool) \<times> event list" where
  "check_setup e cmd checksums integrity_arg =
     (let integ = (case integrity_arg of None \<Rightarrow> check_integrity cmd | Some b \<Rightarrow> b) in
      if \<not> integ then (Inr False, [])
      else (case allAvailable e of
              Inl err \<Rightarrow> (Inl err, [])
            | Inr av \<Rightarrow>
                if av = [] then
                  (if \<not> checksums then (Inl (UserError no_checkers_warning), [])
                   else (Inr False, [LogWarn no_checkers_warning]))
                else
                  (Inr True,
                   log_msg cmd (''Using integrity checker''
                      @ (if length av > 1 then ''s'' else [])
                      @ '' '' @ join '', '' (map program av)))))"

text \<open>The statements of the \<open>try\<close> block of the closure \<open>check\<close>, before the \<open>OK\<close> record.\<close>

definition check_body ::
  "env \<Rightarrow> bool \<Rightarrow> bool \<Rightarrow> item \<Rightarrow> files \<Rightarrow> (error + unit) \<times> files \<times> event list" where
  "check_body e checksums integ it fs =
     (case (if checksums \<and> has_checksum it then verify_checksum e fs it else Inr ()) of
        Inl err \<Rightarrow> (Inl err, fs, [])
      | Inr u \<Rightarrow> if integ then verify_integrity e it fs else (Inr (), fs, []))"

text \<open>The closure \<open>check\<close> with its three handlers; any other exception passes through.\<close>

definition check_item ::
  "env \<Rightarrow> bool \<Rightarrow> bool \<Rightarrow> status \<times> files \<Rightarrow> item \<Rightarrow> (error + status \<times> files) \<times> event list" where
  "check_item e checksums integ s it =
     (case check_body e checksums integ it (snd s) of
        (Inr u, fs', ev) \<Rightarrow>
          (Inr (fst s, fs'), ev @ [LogOK (displayable_path e (path it))])
      | (Inl (ChecksumError p m), fs', ev) \<Rightarrow>
          (Inr ((fst s)\<lparr>failures := failures (fst s) + 1\<rparr>, fs'),
           ev @ [LogFailed (displayable_path e (path it))])
      | (Inl (IntegrityError p reason), fs', ev) \<Rightarrow>
          (Inr ((fst s)\<lparr>integrity := integrity (fst s) + 1\<rparr>, fs'),
           ev @ [LogWarning reason (displayable_path e (path it))])
      | (Inl (IOError m), fs', ev) \<Rightarrow>
          (Inr ((fst s)\<lparr>failures := failures (fst s) + 1\<rparr>, fs'), ev @ [LogError (IOError m)])
      | (Inl err, fs', ev) \<Rightarrow> (Inl err, ev))"

text \<open>\<open>msg\<close> is bound by an \<open>if\<close>/\<open>elif\<close> chain with no \<open>else\<close>.\<close>

definition check_msg :: "bool \<Rightarrow> bool \<Rightarrow> string option" where
  "check_msg checksums integ =
     (if checksums \<and> integ then Some ''Verifying checksums and integrity''
      else if checksums then Some ''Verifying checksums''
      else if integ then Some ''Verifying integrity''
      else None)"

text \<open>The end of \<open>CheckCommand.check\<close>: the summary lines and \<open>sys.exit(15)\<close>.\<close>

definition check_summary :: "command \<Rightarrow> bool \<Rightarrow> status \<Rightarrow> (error + unit) \<times> event list" where
  "check_summary cmd checksums st =
     (let ev =
        (if integrity st \<noteq> 0
         then log_msg cmd (''Found '' @ str_nat (integrity st) @ '' integrity error(s)'')
         else if \<not> checksums then log_msg cmd ''Integrity successfully verified''
         else [])
      in if failures st \<noteq> 0
         then (Inl (SystemExit 15),
               ev @ log_msg cmd
                 (''Failed to verify checksum of '' @ str_nat (failures st) @ '' file(s)''))
         else (Inr (),
               ev @ (if checksums then log_msg cmd ''All checksums successfully verified''
                     else [])))"

text \<open>The batch and the summary, for the integrity flag that the head has fixed.\<close>

definition check_batch ::
  "env \<Rightarrow> command \<Rightarrow> item list \<Rightarrow> bool \<Rightarrow> bool \<Rightarrow> files \<Rightarrow> (error + unit) \<times> event list" where
  "check_batch e cmd items checksums integ fs =
     (case check_msg checksums integ of
        None \<Rightarrow> (Inl (UnboundLocalError ''msg''), [])
      | Some msg \<Rightarrow>
          (case execute_with_progress cmd (check_item e checksums integ) items msg
                  (\<lparr>failures = 0, integrity = 0\<rparr>, fs) of
             (Inl err, ev) \<Rightarrow> (Inl err, ev)
           | (Inr s, ev) \<Rightarrow>
               (case check_summary cmd checksums (fst s) of (r, ev') \<Rightarrow> (r, ev @ ev'))))"

definition CheckCommand_check ::
  "env \<Rightarrow> command \<Rightarrow> item list \<Rightarrow> bool \<Rightarrow> bool option \<Rightarrow> files \<Rightarrow>
   (error + unit) \<times> event list" where
  "CheckCommand_check e cmd items checksums integrity_arg fs =
     (case check_setup e cmd checksums integrity_arg of
        (Inl err, ev) \<Rightarrow> (Inl err, ev)
      | (Inr integ, ev) \<Rightarrow>
          (case check_batch e cmd items checksums integ fs of (r, ev') \<Rightarrow> (r, ev @ ev')))"

subsection \<open>export\<close>

definition export_item :: "env \<Rightarrow> item \<Rightarrow> event list" where
  "export_item e it =
     (if has_checksum it then
        (case checksum it of
           Some c \<Rightarrow> [Print (c @ '' *'' @ displayable_path e (path it))]
         | None \<Rightarrow> [])
      else [])"

definition CheckCommand_export :: "env \<Rightarrow> item list \<Rightarrow> event list" where
  "CheckCommand_export e items = concat (map (export_item e) items)"

text \<open>What the \<open>print\<close> calls of a run write to standard output.\<close>

fun printed :: "event list \<Rightarrow> string" where
  "printed [] = []"
| "printed (Print s # ev) = s @ [CHR 0x0A] @ printed ev"
| "printed (x # ev) = printed ev"

subsection \<open>fix\<close>

text \<open>
  The closure \<open>check\<close> of \<open>CheckCommand.fix\<close>; its state is the list \<open>failed\<close> and the files.
  \<open>'checksum' in item\<close> holds when the attribute is set, whatever its value.
\<close>

definition fix_check_body ::
  "env \<Rightarrow> item \<Rightarrow> files \<Rightarrow> (error + unit) \<times> files \<times> event list" where
  "fix_check_body e it fs =
     (case (if checksum it \<noteq> None then verify_checksum e fs it else Inr ()) of
        Inl err \<Rightarrow> (Inl err, fs, [])
      | Inr u \<Rightarrow>
          (case fixer e it of
             Inl err \<Rightarrow> (Inl err, fs, [])
           | Inr None \<Rightarrow> (Inr (), fs, [])
           | Inr (Some c) \<Rightarrow>
               (case IntegrityChecker_check e c it fs of
                  (Inl err, fs', ev) \<Rightarrow> (Inl err, fs', ev)
                | (Inr u', fs', ev) \<Rightarrow>
                    (Inr (), fs', ev @ [LogOK (displayable_path e (path it))]))))"


text \<open>The closure \<open>fix\<close>: repair, the \<open>FIXED\<close> record, then \<open>set_checksum\<close>.\<close>

definition fix_item :: "env \<Rightarrow> bool \<Rightarrow> files \<Rightarrow> item \<Rightarrow> (error + files) \<times> event list" where
  "fix_item e backup fs it =
     (case fixer e it of
        Inl err \<Rightarrow> (Inl err, [])
      | Inr None \<Rightarrow> (Inr fs, [])
      | Inr (Some c) \<Rightarrow>
          (case checker_fix e c it backup fs of
             (Inl err, fs', ev) \<Rightarrow> (Inl err, ev)
           | (Inr u, fs', ev) \<Rightarrow>
               (case set_checksum e fs' it of
                  (Inl err, ev') \<Rightarrow> (Inl err, ev @ [LogFixed (path it)] @ ev')
                | (Inr it', ev') \<Rightarrow> (Inr fs', ev @ [LogFixed (path it)] @ ev'))))"



section \<open>A concrete environment\<close>

text \<open>
  Stand-ins for the outside world, used to run the definitions on concrete inputs. The
  digest is a fixed injective function of the content. For a file whose content is
  \<open>broken\<close> a validator prints a warning line on stdout and an error line on stderr and
  exits with status 1; \<open>mp3val -f\<close> rewrites the file and leaves the old content in
  \<open><path>.bak\<close>.
\<close>

definition sample_digest :: "string \<Rightarrow> string" where
  "sample_digest content = ''h'' @ content"

definition sample_popen :: "string list \<Rightarrow> files \<Rightarrow> (string \<times> string \<times> int) \<times> files" where
  "sample_popen cmdline fs =
     (if cmdline = [] then (([], [], 0), fs)
      else if length cmdline = 3 \<and> cmdline ! 1 = ''-f''
        then (([], [], 0),
              fs(last cmdline \<mapsto> ''repaired'', (last cmdline @ ''.bak'') := fs (last cmdline)))
      else if fs (last cmdline) = Some ''broken''
        then ((''WARNING: MPEG stream error (offset 0x1f4): Garbage at the end'',
               ''broken: ERROR while decoding data'' @ [CHR 0x0A] @ ''state: END_OF_STREAM'',
               1), fs)
      else (([], [], 0), fs))"

definition sample_env :: env where
  "sample_env =
     \<lparr>sha256_hexdigest = sample_digest, popen = sample_popen,
      check_call = (\<lambda>cmdline. CallOK), displayable_path = (\<lambda>p. p),
      input_yn = (\<lambda>question. True)\<rparr>"

definition no_tools_env :: env where
  "no_tools_env = sample_env\<lparr>check_call := (\<lambda>cmdline. CallOSError)\<rparr>"

definition sample_command :: command where
  "sample_command = \<lparr>quiet = False, isatty = False, check_integrity = True\<rparr>"

definition song :: "string \<Rightarrow> string \<Rightarrow> string option \<Rightarrow> item" where
  "song p f c = \<lparr>path = p, format = f, checksum = c\<rparr>"

text \<open>An environment whose subprocesses print nothing and touch no file.\<close>

definition inert_env :: env where
  "inert_env = sample_env\<lparr>popen := (\<lambda>cmdline fs. (([], [], 0), fs))\<rparr>"

section \<open>Vocabulary of the properties\<close>


text \<open>The record that the closure \<open>check\<close> writes for an item, by the outcome it reports.\<close>

fun is_ok :: "event \<Rightarrow> bool" where
  "is_ok (LogOK p) = True"
| "is_ok x = False"

fun is_failure :: "event \<Rightarrow> bool" where
  "is_failure (LogFailed p) = True"
| "is_failure (LogError err) = True"
| "is_failure x = False"

fun is_warning :: "event \<Rightarrow> bool" where
  "is_warning (LogWarning reason p) = True"
| "is_warning x = False"

fun is_outcome :: "event \<Rightarrow> bool" where
  "is_outcome x = (is_ok x \<or> is_failure x \<or> is_warning x)"

text \<open>The exceptions that the handlers of the closure \<open>check\<close> catch.\<close>

fun handled :: "error \<Rightarrow> bool" where
  "handled (ChecksumError p m) = True"
| "handled (IntegrityError p reason) = True"
| "handled (IOError m) = True"
| "handled err = False"

fun is_exit :: "error \<Rightarrow> bool" where
  "is_exit (SystemExit n) = True"
| "is_exit err = False"



text \<open>A run of \<open>CheckCommand.check\<close> that got to its summary: it returned or called \<open>sys.exit\<close>.\<close>

fun reaches_summary :: "error + unit \<Rightarrow> bool" where
  "reaches_summary (Inr u) = True"
| "reaches_summary (Inl (SystemExit n)) = True"
| "reaches_summary (Inl err) = False"

subsection \<open>Reading an export back\<close>

text \<open>
  The pairs that an export is about: for every item whose \<open>item.get('checksum')\<close> is
  true, its checksum and its path as displayed.
\<close>

definition stored_pair :: "env \<Rightarrow> item \<Rightarrow> (string \<times> string) list" where
  "stored_pair e it =
     (case checksum it of
        None \<Rightarrow> []
      | Some c \<Rightarrow> if c = [] then [] else [(c, displayable_path e (path it))])"

definition stored_pairs :: "env \<Rightarrow> item list \<Rightarrow> (string \<times> string) list" where
  "stored_pairs e items = concat (map (stored_pair e) items)"

text \<open>
  A reader for the export format as the specification gives it, one line
  \<open><checksum> *<path>\<close> per file, each ended by a newline: the checksum runs up to the
  first space, the path is what follows the \<open> *\<close>. It is not part of the program; the
  round trip is stated against it.
\<close>

definition spec_parse_line :: "string \<Rightarrow> (string \<times> string) option" where
  "spec_parse_line l =
     (case strip_prefix '' *'' (dropWhile (\<lambda>x. x \<noteq> CHR '' '') l) of
        None \<Rightarrow> None
      | Some p \<Rightarrow> Some (takeWhile (\<lambda>x. x \<noteq> CHR '' '') l, p))"

definition spec_lines :: "string \<Rightarrow> string list" where
  "spec_lines text = butlast (split_newline text)"

definition spec_parse_export :: "string \<Rightarrow> (string \<times> string) list" where
  "spec_parse_export text = List.map_filter spec_parse_line (spec_lines text)"

definition export_line :: "string \<times> string \<Rightarrow> string" where
  "export_line cp = fst cp @ '' *'' @ snd cp @ [CHR 0x0A]"

subsection \<open>The passes of fix\<close>

text \<open>
  The validation that \<open>CheckCommand.fix\<close> runs for an item raised an \<open>IntegrityError\<close>: the
  test under which the closure \<open>check\<close> appends the item to \<open>failed\<close>.
\<close>

definition integrity_violation :: "env \<Rightarrow> files \<Rightarrow> item \<Rightarrow> bool" where
  "integrity_violation e fs it =
     (case fst (fix_check_body e it fs) of
        Inl (IntegrityError p reason) \<Rightarrow> True
      | r \<Rightarrow> False)"

fun is_progress :: "event \<Rightarrow> bool" where
  "is_progress (Progress msg index totl) = True"
| "is_progress x = False"

section \<open>Digest engine: properties\<close>

text \<open>
  C1. For an item with a stored checksum \<open>c\<close> whose file holds the bytes \<open>b\<close>,
  \<open>verify_checksum\<close> returns normally exactly when the hex digest of all of \<open>b\<close> equals \<open>c\<close>
  as a string, and raises \<open>ChecksumError\<close> in every other case: equality of the two
  strings is the only test, with no tolerance.
\<close>

theorem verify_checksum_iff_digest_equal:
  assumes "checksum it = Some c" and "fs (path it) = Some b"
  shows "(verify_checksum e fs it = Inr () \<longleftrightarrow> sha256_hexdigest e b = c) \<and>
         (sha256_hexdigest e b \<noteq> c \<longrightarrow>
            verify_checksum e fs it = Inl (ChecksumError (path it) checksum_mismatch))"
  using assms by (auto simp: verify_checksum_def compute_checksum_def)

theorem verify_checksum_iff_digest_equal_witness:
  "checksum (song ''a.mp3'' ''MP3'' (Some ''habc'')) = Some ''habc'' \<and>
   [''a.mp3'' \<mapsto> ''abd''] (path (song ''a.mp3'' ''MP3'' (Some ''habc''))) = Some ''abd'' \<and>
   sha256_hexdigest sample_env ''abd'' \<noteq> ''habc'' \<and>
   verify_checksum sample_env [''a.mp3'' \<mapsto> ''abd''] (song ''a.mp3'' ''MP3'' (Some ''habc''))
     = Inl (ChecksumError ''a.mp3'' checksum_mismatch) \<and>
   sha256_hexdigest sample_env ''abc'' = ''habc'' \<and>
   verify_checksum sample_env [''a.mp3'' \<mapsto> ''abc''] (song ''a.mp3'' ''MP3'' (Some ''habc''))
     = Inr ()"
  using verify_checksum_iff_digest_equal
    [of "song ''a.mp3'' ''MP3'' (Some ''habc'')" "''habc''" "[''a.mp3'' \<mapsto> ''abd'']" "''abd''"
        sample_env]
    verify_checksum_iff_digest_equal
    [of "song ''a.mp3'' ''MP3'' (Some ''habc'')" "''habc''" "[''a.mp3'' \<mapsto> ''abc'']" "''abc''"
        sample_env]
  by (simp add: song_def sample_env_def sample_digest_def)

text \<open>When the file cannot be read the digest does not exist and \<open>IOError\<close> passes through.\<close>

lemma verify_checksum_unreadable:
  assumes "checksum it = Some c" and "fs (path it) = None"
  shows "verify_checksum e fs it = Inl (IOError (path it))"
  using assms by (simp add: verify_checksum_def compute_checksum_def)

section \<open>Parsers: properties\<close>

lemma split_newline_not_Nil: "split_newline s \<noteq> []"
  by (induction s) (auto split: list.splits)





lemma strip_prefix_Some_iff: "strip_prefix p s = Some r \<longleftrightarrow> s = p @ r"
  by (induction p s rule: strip_prefix.induct) auto

lemma strip_prefix_None_iff: "strip_prefix p s = None \<longleftrightarrow> (\<forall>r. s \<noteq> p @ r)"
  by (induction p s rule: strip_prefix.induct) auto

lemma rightmost_None_iff: "rightmost f s = None \<longleftrightarrow> (\<forall>pre t. s = pre @ t \<longrightarrow> f t = None)"
proof (induction s)
  case Nil
  show ?case by simp
next
  case (Cons c cs)
  show ?case
  proof
    assume none: "rightmost f (c # cs) = None"
    then have tail: "rightmost f cs = None" and here: "f (c # cs) = None"
      by (auto split: option.splits)
    show "\<forall>pre t. c # cs = pre @ t \<longrightarrow> f t = None"
    proof (intro allI impI)
      fix pre t
      assume split: "c # cs = pre @ t"
      show "f t = None"
      proof (cases pre)
        case Nil
        with split here show ?thesis by simp
      next
        case (Cons a pre')
        with split have "cs = pre' @ t" by simp
        with tail Cons.IH show ?thesis by blast
      qed
    qed
  next
    assume all: "\<forall>pre t. c # cs = pre @ t \<longrightarrow> f t = None"
    have "f (c # cs) = None"
      using all by (metis append_Nil)
    moreover have "\<forall>pre t. cs = pre @ t \<longrightarrow> f t = None"
      using all by (metis append_Cons)
    ultimately show "rightmost f (c # cs) = None"
      using Cons.IH by simp
  qed
qed

lemma rightmost_Some: "rightmost f s = Some g \<Longrightarrow> \<exists>pre t. s = pre @ t \<and> f t = Some g"
proof (induction s)
  case Nil
  then show ?case by simp
next
  case (Cons c cs)
  show ?case
  proof (cases "rightmost f cs")
    case None
    with Cons.prems have "f (c # cs) = Some g" by simp
    then show ?thesis by (metis append_Nil)
  next
    case (Some g')
    with Cons.prems have "g' = g" by simp
    with Some Cons.IH obtain pre t where "cs = pre @ t" and "f t = Some g" by blast
    then show ?thesis by (metis append_Cons)
  qed
qed

lemma first_match_None_iff: "first_match f ls = None \<longleftrightarrow> (\<forall>l \<in> set ls. f l = None)"
  by (induction ls) (auto split: option.splits)

lemma first_match_Some: "first_match f ls = Some g \<Longrightarrow> \<exists>l \<in> set ls. f l = Some g"
  by (induction ls) (auto split: option.splits)

text \<open>
  What \<open>error_matcher\<close> accepts: the lines that hold \<open>: ERROR\<close>, an optional comma and a
  space.
\<close>

lemma error_here_Some_iff:
  "error_here t = Some g \<longleftrightarrow> t = '': ERROR, '' @ g \<or> t = '': ERROR '' @ g"
  by (auto simp: error_here_def strip_prefix_Some_iff strip_prefix_None_iff
           split: option.splits)

lemma error_matcher_None_iff:
  "error_matcher line = None \<longleftrightarrow>
     \<not> (\<exists>pre g. line = pre @ '': ERROR, '' @ g \<or> line = pre @ '': ERROR '' @ g)"
proof -
  have "error_matcher line = None \<longleftrightarrow> (\<forall>pre t. line = pre @ t \<longrightarrow> error_here t = None)"
    by (simp add: error_matcher_def rightmost_None_iff)
  also have "\<dots> \<longleftrightarrow> (\<forall>pre t. line = pre @ t \<longrightarrow> (\<forall>g. error_here t \<noteq> Some g))"
    by auto
  also have "\<dots> \<longleftrightarrow>
      \<not> (\<exists>pre g. line = pre @ '': ERROR, '' @ g \<or> line = pre @ '': ERROR '' @ g)"
    unfolding error_here_Some_iff by blast
  finally show ?thesis .
qed

text \<open>
  C10. With a non-zero exit code, \<open>FlacTest.parse\<close> returns normally when no line of
  stderr matches the \<open>: ERROR\<close> pattern, and whenever it raises, it raises an
  \<open>IntegrityError\<close> whose reason is group 1 of a matching line of stderr: the exit code
  alone never yields a violation.
\<close>

theorem FlacTest_parse_needs_error_line:
  assumes "returncode \<noteq> 0"
  shows "((\<forall>line \<in> set (split_newline err). error_matcher line = None) \<longrightarrow>
            FlacTest_parse out err returncode p = Inr ()) \<and>
         (\<forall>x. FlacTest_parse out err returncode p = Inl x \<longrightarrow>
            (\<exists>line \<in> set (split_newline err). \<exists>reason.
               error_matcher line = Some reason \<and> x = IntegrityError p reason))"
proof (intro conjI impI allI)
  assume "\<forall>line \<in> set (split_newline err). error_matcher line = None"
  then have "first_match error_matcher (split_newline err) = None"
    by (simp add: first_match_None_iff)
  then show "FlacTest_parse out err returncode p = Inr ()"
    by (simp add: FlacTest_parse_def)
next
  fix x
  assume raised: "FlacTest_parse out err returncode p = Inl x"
  with assms obtain reason where
    found: "first_match error_matcher (split_newline err) = Some reason" and
    x: "x = IntegrityError p reason"
    by (auto simp: FlacTest_parse_def split: option.splits)
  from first_match_Some [OF found] x
  show "\<exists>line \<in> set (split_newline err). \<exists>reason.
          error_matcher line = Some reason \<and> x = IntegrityError p reason"
    by blast
qed

theorem FlacTest_parse_needs_error_line_witness:
  "(1::int) \<noteq> 0 \<and> split_newline ''a.flac: boom'' = [''a.flac: boom''] \<and>
   error_matcher ''a.flac: boom'' = None \<and>
   FlacTest_parse ''out'' ''a.flac: boom'' 1 ''a.flac'' = Inr () \<and>
   error_matcher ''a.flac: ERROR while decoding data'' = Some ''while decoding data'' \<and>
   FlacTest_parse ''out'' ''a.flac: ERROR while decoding data'' 1 ''a.flac''
     = Inl (IntegrityError ''a.flac'' ''while decoding data'')"
  using FlacTest_parse_needs_error_line [of 1 "''a.flac: boom''" "''out''" "''a.flac''"]
    FlacTest_parse_needs_error_line
      [of 1 "''a.flac: ERROR while decoding data''" "''out''" "''a.flac''"]
  by (simp add: error_matcher_def error_here_def FlacTest_parse_def)

section \<open>Repair: properties\<close>

text \<open>
  C7. \<open>MP3Val.fix\<close> with backup disabled removes \<open><path>.bak\<close> after the repair tool has
  run; when that file does not exist the removal raises \<open>OSError\<close> instead of passing
  silently. With backup enabled nothing is removed and the files are as the repair tool
  left them.
\<close>

theorem MP3Val_fix_backup_policy:
  assumes "popen e (repair_cmd it) fs = (output, fs')"
  shows "(fs' (backup_path it) \<noteq> None \<longrightarrow>
            MP3Val_fix e it False fs =
              (Inr (), fs'(backup_path it := None),
               [Spawn (repair_cmd it), Remove (backup_path it)])) \<and>
         (fs' (backup_path it) = None \<longrightarrow>
            MP3Val_fix e it False fs =
              (Inl (OSError (backup_path it)), fs', [Spawn (repair_cmd it)])) \<and>
         MP3Val_fix e it True fs = (Inr (), fs', [Spawn (repair_cmd it)]) \<and>
         backup_path it = path it @ ''.bak''"
  using assms by (simp add: MP3Val_fix_def backup_path_def)

theorem MP3Val_fix_backup_policy_witness:
  "snd (popen sample_env (repair_cmd (song ''a.mp3'' ''MP3'' None)) [''a.mp3'' \<mapsto> ''broken''])
     ''a.mp3.bak'' = Some ''broken'' \<and>
   fst (MP3Val_fix sample_env (song ''a.mp3'' ''MP3'' None) False [''a.mp3'' \<mapsto> ''broken''])
     = Inr () \<and>
   fst (snd (MP3Val_fix sample_env (song ''a.mp3'' ''MP3'' None) False
     [''a.mp3'' \<mapsto> ''broken''])) ''a.mp3.bak'' = None \<and>
   fst (snd (MP3Val_fix sample_env (song ''a.mp3'' ''MP3'' None) True
     [''a.mp3'' \<mapsto> ''broken''])) ''a.mp3.bak'' = Some ''broken'' \<and>
   fst (MP3Val_fix inert_env
     (song ''a.mp3'' ''MP3'' None) False [''a.mp3'' \<mapsto> ''broken''])
     = Inl (OSError ''a.mp3.bak'')"
  using MP3Val_fix_backup_policy
    [of sample_env "song ''a.mp3'' ''MP3'' None" "[''a.mp3'' \<mapsto> ''broken'']"
        "fst (popen sample_env (repair_cmd (song ''a.mp3'' ''MP3'' None))
               [''a.mp3'' \<mapsto> ''broken''])"
        "snd (popen sample_env (repair_cmd (song ''a.mp3'' ''MP3'' None))
               [''a.mp3'' \<mapsto> ''broken''])"]
    MP3Val_fix_backup_policy
    [of inert_env
        "song ''a.mp3'' ''MP3'' None" "[''a.mp3'' \<mapsto> ''broken'']"
        "([], [], 0)" "[''a.mp3'' \<mapsto> ''broken'']"]
  by (simp add: sample_env_def inert_env_def sample_popen_def repair_cmd_def
        backup_path_def song_def)

section \<open>Batch execution: properties\<close>

text \<open>A property of every event of \<open>func\<close> and of the progress ticks holds for the run.\<close>

lemma progress_loop_events:
  assumes func: "\<And>s x r ev. func s x = (r, ev) \<Longrightarrow> \<forall>y \<in> set ev. P y"
    and tick: "\<And>index. \<forall>y \<in> set (log_progress cmd msg index totl). P y"
  shows "progress_loop cmd func msg totl finished xs s = (r, ev) \<Longrightarrow> \<forall>y \<in> set ev. P y"
proof (induction xs arbitrary: finished s r ev)
  case Nil
  then show ?case by simp
next
  case (Cons x xs)
  obtain r1 ev1 where step: "func s x = (r1, ev1)" by (cases "func s x")
  from func [OF step] have ev1: "\<forall>y \<in> set ev1. P y" .
  show ?case
  proof (cases r1)
    case (Inl err)
    with step Cons.prems have "ev = ev1" by simp
    with ev1 show ?thesis by simp
  next
    case (Inr s')
    obtain r2 ev2 where
      rest: "progress_loop cmd func msg totl (finished + 1) xs s' = (r2, ev2)"
      by (cases "progress_loop cmd func msg totl (finished + 1) xs s'")
    from Cons.IH [OF rest] have ev2: "\<forall>y \<in> set ev2. P y" .
    from step Inr rest Cons.prems
    have "ev = ev1 @ log_progress cmd msg (finished + 1) totl @ ev2" by simp
    with ev1 ev2 tick [of "finished + 1"] show ?thesis by auto
  qed
qed



subsection \<open>What the parts can raise\<close>

lemma available_among_error:
  "available_among e cs = Inl err \<Longrightarrow> \<exists>cmdline. err = CalledProcessError cmdline"
  by (induction cs arbitrary: err)
     (auto simp: available_def split: sum.splits call_result.splits)

lemma verify_checksum_error:
  "verify_checksum e fs it = Inl err \<Longrightarrow>
     err = KeyError ''checksum'' \<or> err = IOError (path it) \<or>
     err = ChecksumError (path it) checksum_mismatch"
  by (auto simp: verify_checksum_def compute_checksum_def split: option.splits if_splits)

lemma parse_error:
  "parse c out err returncode p = Inl x \<Longrightarrow> (\<exists>reason. x = IntegrityError p reason) \<or> x = IndexError"
  by (cases c)
     (auto simp: MP3Val_parse_def FlacTest_parse_def OggzValidate_parse_def Let_def
           split: option.splits if_splits)

lemma run_result:
  "run e c it fs = (r, fs', ev) \<Longrightarrow>
     (\<forall>x. r = Inl x \<longrightarrow> (\<exists>reason. x = IntegrityError (path it) reason) \<or> x = IndexError) \<and>
     (ev = [] \<or> ev = [Spawn (validate_cmd c it)])"
proof (cases "format it \<in> set (formats c)")
  case False
  assume "run e c it fs = (r, fs', ev)"
  with False show ?thesis by (auto simp: run_def)
next
  case True
  assume result: "run e c it fs = (r, fs', ev)"
  obtain out err returncode fs1 where
    p: "popen e (validate_cmd c it) fs = ((out, err, returncode), fs1)"
    by (cases "popen e (validate_cmd c it) fs") auto
  with True result have "r = parse c out err returncode (path it)"
    and "ev = [Spawn (validate_cmd c it)]"
    by (simp_all add: run_def)
  then show ?thesis by (auto dest: parse_error)
qed

lemma run_each_result:
  "run_each e cs it fs = (r, fs', ev) \<Longrightarrow>
     (\<forall>x. r = Inl x \<longrightarrow> (\<exists>reason. x = IntegrityError (path it) reason) \<or> x = IndexError) \<and>
     (\<forall>y \<in> set ev. \<exists>c. y = Spawn (validate_cmd c it))"
proof (induction cs arbitrary: fs r fs' ev)
  case Nil
  then show ?case by auto
next
  case (Cons c cs)
  obtain r1 fs1 ev1 where head: "run e c it fs = (r1, fs1, ev1)"
    by (cases "run e c it fs") auto
  note h = run_result [OF head]
  show ?case
  proof (cases r1)
    case (Inl x)
    with head Cons.prems have "r = Inl x" "ev = ev1" by simp_all
    with h Inl show ?thesis by auto
  next
    case (Inr u)
    obtain r2 fs2 ev2 where tail: "run_each e cs it fs1 = (r2, fs2, ev2)"
      by (cases "run_each e cs it fs1") auto
    from head Inr tail Cons.prems have "r = r2" "ev = ev1 @ ev2" by simp_all
    with Cons.IH [OF tail] h show ?thesis by auto
  qed
qed

lemma verify_integrity_result:
  "verify_integrity e it fs = (r, fs', ev) \<Longrightarrow>
     (\<forall>x. r = Inl x \<longrightarrow> (\<exists>reason. x = IntegrityError (path it) reason) \<or> x = IndexError
         \<or> (\<exists>cmdline. x = CalledProcessError cmdline)) \<and>
     (\<forall>y \<in> set ev. \<exists>c. y = Spawn (validate_cmd c it))"
  unfolding verify_integrity_def allAvailable_def
  by (auto split: sum.splits dest: available_among_error run_each_result)

lemma check_body_result:
  "check_body e checksums integ it fs = (r, fs', ev) \<Longrightarrow>
     (\<forall>x. r = Inl x \<longrightarrow> \<not> is_exit x) \<and>
     (\<forall>y \<in> set ev. \<exists>c. y = Spawn (validate_cmd c it)) \<and>
     (\<not> integ \<longrightarrow> ev = [])"
  unfolding check_body_def
  by (auto split: sum.splits if_splits
        dest!: verify_integrity_result verify_checksum_error)

subsection \<open>The closure of check and its counters\<close>

lemma check_item_result:
  assumes "check_item e checksums integ s it = (r, ev)"
  shows "(\<forall>x. r = Inl x \<longrightarrow> \<not> handled x \<and> \<not> is_exit x \<and> filter is_outcome ev = []) \<and>
         (\<forall>s'. r = Inr s' \<longrightarrow>
            failures (fst s') = failures (fst s) + length (filter is_failure ev) \<and>
            integrity (fst s') = integrity (fst s) + length (filter is_warning ev) \<and>
            length (filter is_outcome ev) = 1)"
proof -
  obtain rb fs' evb where body: "check_body e checksums integ it (snd s) = (rb, fs', evb)"
    by (cases "check_body e checksums integ it (snd s)") auto
  from check_body_result [OF body]
  have noexit: "\<forall>x. rb = Inl x \<longrightarrow> \<not> is_exit x"
    and spawns: "\<forall>y \<in> set evb. \<exists>c. y = Spawn (validate_cmd c it)"
    by simp_all
  from spawns have q: "filter is_outcome evb = []" "filter is_failure evb = []"
    "filter is_warning evb = []"
    by (auto simp: filter_empty_conv)
  show ?thesis
  proof (cases rb)
    case (Inr u)
    from assms have "r = Inr (fst s, fs')" and "ev = evb @ [LogOK (displayable_path e (path it))]"
      unfolding check_item_def body Inr by simp_all
    with q show ?thesis by simp
  next
    case (Inl x)
    with noexit have nx: "\<not> is_exit x" by simp
    show ?thesis
    proof (cases x)
      case (ChecksumError p m)
      from assms have "r = Inr ((fst s)\<lparr>failures := failures (fst s) + 1\<rparr>, fs')"
        and "ev = evb @ [LogFailed (displayable_path e (path it))]"
        unfolding check_item_def body Inl ChecksumError by simp_all
      with q show ?thesis by simp
    next
      case (IntegrityError p reason)
      from assms have "r = Inr ((fst s)\<lparr>integrity := integrity (fst s) + 1\<rparr>, fs')"
        and "ev = evb @ [LogWarning reason (displayable_path e (path it))]"
        unfolding check_item_def body Inl IntegrityError by simp_all
      with q show ?thesis by simp
    next
      case (IOError m)
      from assms have "r = Inr ((fst s)\<lparr>failures := failures (fst s) + 1\<rparr>, fs')"
        and "ev = evb @ [LogError (IOError m)]"
        unfolding check_item_def body Inl IOError by simp_all
      with q show ?thesis by simp
    next
      case (SystemExit n)
      with nx show ?thesis by simp
    qed (use assms q in \<open>auto simp: check_item_def body Inl\<close>)
  qed
qed

lemma log_progress_filter:
  "filter is_failure (log_progress cmd msg index totl) = []"
  "filter is_warning (log_progress cmd msg index totl) = []"
  "filter is_outcome (log_progress cmd msg index totl) = []"
  by (simp_all add: log_progress_def)

lemma check_loop_counts:
  "progress_loop cmd (check_item e checksums integ) msg totl finished xs s = (r, ev) \<Longrightarrow>
     (\<forall>x. r = Inl x \<longrightarrow> \<not> handled x \<and> \<not> is_exit x) \<and>
     (\<forall>s'. r = Inr s' \<longrightarrow>
        failures (fst s') = failures (fst s) + length (filter is_failure ev) \<and>
        integrity (fst s') = integrity (fst s) + length (filter is_warning ev) \<and>
        length (filter is_outcome ev) = length xs)"
proof (induction xs arbitrary: finished s r ev)
  case Nil
  then show ?case by auto
next
  case (Cons x xs)
  obtain r1 ev1 where step: "check_item e checksums integ s x = (r1, ev1)"
    by (cases "check_item e checksums integ s x")
  note h = check_item_result [OF step]
  show ?case
  proof (cases r1)
    case (Inl err)
    with step Cons.prems have "r = Inl err" by simp
    with h Inl show ?thesis by blast
  next
    case (Inr s1)
    obtain r2 ev2 where rest:
      "progress_loop cmd (check_item e checksums integ) msg totl (finished + 1) xs s1 = (r2, ev2)"
      by (cases "progress_loop cmd (check_item e checksums integ) msg totl (finished + 1) xs s1")
    from step Inr rest Cons.prems
    have r: "r = r2" and ev: "ev = ev1 @ log_progress cmd msg (finished + 1) totl @ ev2"
      by simp_all
    note tick = log_progress_filter
    from h Inr have h1:
      "failures (fst s1) = failures (fst s) + length (filter is_failure ev1)"
      "integrity (fst s1) = integrity (fst s) + length (filter is_warning ev1)"
      "length (filter is_outcome ev1) = 1"
      by blast+
    note ih = Cons.IH [OF rest]
    show ?thesis
      unfolding r ev
    proof (intro conjI allI impI)
      fix x
      assume "r2 = Inl x"
      with ih show "\<not> handled x" and "\<not> is_exit x" by blast+
    next
      fix s'
      assume "r2 = Inr s'"
      with ih have h2:
        "failures (fst s') = failures (fst s1) + length (filter is_failure ev2)"
        "integrity (fst s') = integrity (fst s1) + length (filter is_warning ev2)"
        "length (filter is_outcome ev2) = length xs"
        by blast+
      show "failures (fst s') = failures (fst s)
              + length (filter is_failure
                  (ev1 @ log_progress cmd msg (finished + 1) totl @ ev2))"
        by (simp add: h1 h2 tick)
      show "integrity (fst s') = integrity (fst s)
              + length (filter is_warning
                  (ev1 @ log_progress cmd msg (finished + 1) totl @ ev2))"
        by (simp add: h1 h2 tick)
      show "length (filter is_outcome
                (ev1 @ log_progress cmd msg (finished + 1) totl @ ev2))
              = length (x # xs)"
        by (simp add: h1 h2 tick)
    qed
  qed
qed

lemma check_summary_result:
  "check_summary cmd checksums st = (r, ev) \<Longrightarrow>
     (r = Inl (SystemExit 15) \<longleftrightarrow> failures st \<noteq> 0) \<and>
     (r = Inr () \<longleftrightarrow> failures st = 0) \<and>
     (\<forall>y \<in> set ev. \<exists>line. y = Print line)"
  by (auto simp: check_summary_def log_msg_def Let_def split: if_splits)

lemma check_batch_result:
  assumes "check_batch e cmd items checksums integ fs = (r, ev)"
  shows "reaches_summary r \<longrightarrow>
           (r = Inl (SystemExit 15) \<longleftrightarrow> (\<exists>x \<in> set ev. is_failure x)) \<and>
           (r = Inr () \<longleftrightarrow> (\<forall>x \<in> set ev. \<not> is_failure x))"
proof (cases "check_msg checksums integ")
  case None
  with assms show ?thesis by (auto simp: check_batch_def)
next
  case (Some msg)
  obtain r1 ev1 where loop:
    "progress_loop cmd (check_item e checksums integ) msg (length items) 0 items
       (\<lparr>failures = 0, integrity = 0\<rparr>, fs) = (r1, ev1)"
    by (cases "progress_loop cmd (check_item e checksums integ) msg (length items) 0 items
       (\<lparr>failures = 0, integrity = 0\<rparr>, fs)")
  note h = check_loop_counts [OF loop]
  show ?thesis
  proof (cases r1)
    case (Inl err)
    with Some loop assms have "r = Inl err"
      by (simp add: check_batch_def execute_with_progress_def)
    moreover from h Inl have "\<not> is_exit err" by blast
    ultimately show ?thesis by (cases err) simp_all
  next
    case (Inr s1)
    obtain r2 ev2 where sm: "check_summary cmd checksums (fst s1) = (r2, ev2)"
      by (cases "check_summary cmd checksums (fst s1)")
    from Some loop Inr sm assms have r: "r = r2" and ev: "ev = ev1 @ ev2"
      by (simp_all add: check_batch_def execute_with_progress_def)
    from h Inr have "failures (fst s1) =
        failures (fst (\<lparr>failures = 0, integrity = 0\<rparr>, fs)) + length (filter is_failure ev1)"
      by blast
    then have count: "failures (fst s1) = length (filter is_failure ev1)" by simp
    from check_summary_result [OF sm]
    have exit: "r2 = Inl (SystemExit 15) \<longleftrightarrow> failures (fst s1) \<noteq> 0"
      and ret: "r2 = Inr () \<longleftrightarrow> failures (fst s1) = 0"
      and prints: "\<forall>y \<in> set ev2. \<exists>line. y = Print line"
      by simp_all
    from prints have none: "\<forall>y \<in> set ev2. \<not> is_failure y" by auto
    have "(\<exists>x \<in> set ev. is_failure x) \<longleftrightarrow> filter is_failure ev1 \<noteq> []"
      unfolding ev using none by (auto simp: filter_empty_conv)
    with exit ret count show ?thesis unfolding r by auto
  qed
qed

lemma check_setup_result:
  "check_setup e cmd checksums integrity_arg = (r, ev) \<Longrightarrow>
     (\<forall>x. r = Inl x \<longrightarrow> \<not> is_exit x) \<and> (\<forall>y \<in> set ev. \<not> is_failure y)"
  unfolding check_setup_def allAvailable_def
  by (auto simp: Let_def log_msg_def split: if_splits sum.splits
        dest: available_among_error)

section \<open>check: properties\<close>

lemma not_exit_not_summary: "\<not> is_exit err \<Longrightarrow> \<not> reaches_summary (Inl err)"
  by (cases err) simp_all

text \<open>
  C3, as the code has it. A run of \<open>check\<close> that reaches its summary ends with
  \<open>sys.exit(15)\<close> exactly when some item was reported as \<open>FAILED\<close> (its checksum did not
  match) or as \<open>ERROR\<close> (its file could not be read), and returns normally exactly when
  no item was. Integrity warnings play no part in it.
\<close>

theorem check_exit_status:
  assumes "CheckCommand_check e cmd items checksums integrity_arg fs = (r, ev)"
    and "reaches_summary r"
  shows "(r = Inl (SystemExit 15) \<longleftrightarrow> (\<exists>x \<in> set ev. is_failure x)) \<and>
         (r = Inr () \<longleftrightarrow> (\<forall>x \<in> set ev. \<not> is_failure x))"
proof -
  obtain rs evs where hd_eq: "check_setup e cmd checksums integrity_arg = (rs, evs)"
    by (cases "check_setup e cmd checksums integrity_arg")
  note hs = check_setup_result [OF hd_eq]
  show ?thesis
  proof (cases rs)
    case (Inl err)
    with hd_eq assms(1) have "r = Inl err" by (simp add: CheckCommand_check_def)
    moreover from hs Inl have "\<not> is_exit err" by blast
    ultimately show ?thesis using assms(2) not_exit_not_summary by blast
  next
    case (Inr integ)
    obtain rb evb where batch: "check_batch e cmd items checksums integ fs = (rb, evb)"
      by (cases "check_batch e cmd items checksums integ fs")
    from hd_eq Inr batch assms(1) have r: "r = rb" and ev: "ev = evs @ evb"
      by (simp_all add: CheckCommand_check_def)
    from hs have "\<forall>y \<in> set evs. \<not> is_failure y" by blast
    then have "(\<exists>x \<in> set ev. is_failure x) \<longleftrightarrow> (\<exists>x \<in> set evb. is_failure x)"
      unfolding ev by auto
    with check_batch_result [OF batch] assms(2) show ?thesis
      unfolding r by blast
  qed
qed

lemmas check_unfold =
  CheckCommand_check_def check_setup_def check_batch_def check_msg_def check_summary_def
  execute_with_progress_def check_item_def check_body_def verify_integrity_def
  verify_checksum_def compute_checksum_def has_checksum_def allAvailable_def
  IntegrityChecker_all_def available_def run_def validate_cmd_def log_msg_def
  log_progress_def MP3Val_parse_def FlacTest_parse_def OggzValidate_parse_def
  log_matcher_def offset_here_def is_hex_def

lemmas sample_unfold =
  sample_env_def sample_command_def sample_popen_def sample_digest_def song_def
  inert_env_def no_tools_env_def

theorem check_exit_status_witness:
  "CheckCommand_check sample_env sample_command [song ''c.mp3'' ''MP3'' None] True None
     [''c.mp3'' \<mapsto> ''broken'']
   = (Inr (),
      [Print ''Using integrity checkers mp3val, flac, oggz-validate'',
       Spawn [''mp3val'', ''c.mp3''],
       LogWarning ''Garbage at the end'' ''c.mp3'',
       Print ''Found 1 integrity error(s)'',
       Print ''All checksums successfully verified'']) \<and>
   reaches_summary (Inr ()) \<and>
   CheckCommand_check sample_env sample_command [song ''b.mp3'' ''MP3'' (Some ''hxyz'')] True
     (Some False) [''b.mp3'' \<mapsto> ''changed'']
   = (Inl (SystemExit 15),
      [LogFailed ''b.mp3'', Print ''Failed to verify checksum of 1 file(s)'']) \<and>
   reaches_summary (Inl (SystemExit 15))"
  using check_exit_status
    [of sample_env sample_command "[song ''c.mp3'' ''MP3'' None]" True None
        "[''c.mp3'' \<mapsto> ''broken'']" "Inr ()"]
    check_exit_status
    [of sample_env sample_command "[song ''b.mp3'' ''MP3'' (Some ''hxyz'')]" True "Some False"
        "[''b.mp3'' \<mapsto> ''changed'']" "Inl (SystemExit 15)"]
  by (simp add: check_unfold sample_unfold str_nat.simps digit_char_def)

text \<open>
  The claim as the specification words it fails: an item whose file cannot be read
  raises \<open>IOError\<close>, no checksum is compared, and the run still exits with status 15.
\<close>

theorem check_exits_15_without_mismatch:
  "verify_checksum sample_env Map.empty (song ''a.mp3'' ''MP3'' (Some ''habc''))
     = Inl (IOError ''a.mp3'') \<and>
   CheckCommand_check sample_env sample_command [song ''a.mp3'' ''MP3'' (Some ''habc'')]
     True (Some False) Map.empty
   = (Inl (SystemExit 15),
      [LogError (IOError ''a.mp3''), Print ''Failed to verify checksum of 1 file(s)''])"
  by (simp add: check_unfold sample_unfold str_nat.simps digit_char_def)

lemma check_item_checksum_only:
  assumes "check_item e checksums False s it = (r, ev)"
  shows "\<forall>y \<in> set ev. \<forall>cmdline. y \<noteq> Spawn cmdline"
proof -
  obtain rb fs' evb where body: "check_body e checksums False it (snd s) = (rb, fs', evb)"
    by (cases "check_body e checksums False it (snd s)") auto
  from check_body_result [OF body] have evb: "evb = []" by simp
  show ?thesis
  proof (cases rb)
    case (Inr u)
    with assms body evb show ?thesis by (auto simp: check_item_def)
  next
    case (Inl x)
    with assms body evb show ?thesis by (cases x) (auto simp: check_item_def)
  qed
qed

lemma check_batch_checksum_only:
  assumes "check_batch e cmd items checksums False fs = (r, ev)"
  shows "\<forall>y \<in> set ev. \<forall>cmdline. y \<noteq> Spawn cmdline"
proof (cases "check_msg checksums False")
  case None
  with assms show ?thesis by (auto simp: check_batch_def)
next
  case (Some msg)
  obtain r1 ev1 where loop:
    "progress_loop cmd (check_item e checksums False) msg (length items) 0 items
       (\<lparr>failures = 0, integrity = 0\<rparr>, fs) = (r1, ev1)"
    by (cases "progress_loop cmd (check_item e checksums False) msg (length items) 0 items
       (\<lparr>failures = 0, integrity = 0\<rparr>, fs)")
  have ev1: "\<forall>y \<in> set ev1. \<forall>cmdline. y \<noteq> Spawn cmdline"
  proof (rule progress_loop_events [OF _ _ loop])
    fix s x r' ev'
    assume "check_item e checksums False s x = (r', ev')"
    then show "\<forall>y \<in> set ev'. \<forall>cmdline. y \<noteq> Spawn cmdline"
      by (rule check_item_checksum_only)
  next
    fix index
    show "\<forall>y \<in> set (log_progress cmd msg index (length items)). \<forall>cmdline. y \<noteq> Spawn cmdline"
      by (simp add: log_progress_def)
  qed
  show ?thesis
  proof (cases r1)
    case (Inl err)
    with Some loop assms have "ev = ev1"
      by (simp add: check_batch_def execute_with_progress_def)
    with ev1 show ?thesis by simp
  next
    case (Inr s1)
    obtain r2 ev2 where sm: "check_summary cmd checksums (fst s1) = (r2, ev2)"
      by (cases "check_summary cmd checksums (fst s1)")
    from Some loop Inr sm assms have "ev = ev1 @ ev2"
      by (simp add: check_batch_def execute_with_progress_def)
    moreover from check_summary_result [OF sm]
    have "\<forall>y \<in> set ev2. \<forall>cmdline. y \<noteq> Spawn cmdline" by auto
    ultimately show ?thesis using ev1 by auto
  qed
qed

text \<open>
  C6. When integrity checking is requested and no checker is available: with
  \<open>checksums\<close> false (integrity only) \<open>check\<close> raises \<open>UserError\<close> before anything else
  happens, so that no item is handled; with \<open>checksums\<close> true it logs the warning and
  then does what a run without integrity checking does, which spawns no validator.
\<close>

theorem check_without_checkers:
  assumes "(case integrity_arg of None \<Rightarrow> check_integrity cmd | Some b \<Rightarrow> b)"
    and "allAvailable e = Inr []"
  shows "CheckCommand_check e cmd items False integrity_arg fs
           = (Inl (UserError no_checkers_warning), []) \<and>
         CheckCommand_check e cmd items True integrity_arg fs
           = (fst (CheckCommand_check e cmd items True (Some False) fs),
              LogWarn no_checkers_warning
                # snd (CheckCommand_check e cmd items True (Some False) fs)) \<and>
         (\<forall>y \<in> set (snd (CheckCommand_check e cmd items True (Some False) fs)).
            \<forall>cmdline. y \<noteq> Spawn cmdline)"
proof (intro conjI)
  from assms show "CheckCommand_check e cmd items False integrity_arg fs
      = (Inl (UserError no_checkers_warning), [])"
    by (simp add: CheckCommand_check_def check_setup_def)
next
  from assms show "CheckCommand_check e cmd items True integrity_arg fs
      = (fst (CheckCommand_check e cmd items True (Some False) fs),
         LogWarn no_checkers_warning
           # snd (CheckCommand_check e cmd items True (Some False) fs))"
    by (simp add: CheckCommand_check_def check_setup_def split: prod.splits)
next
  obtain r ev where batch: "check_batch e cmd items True False fs = (r, ev)"
    by (cases "check_batch e cmd items True False fs")
  then have "snd (CheckCommand_check e cmd items True (Some False) fs) = ev"
    by (simp add: CheckCommand_check_def check_setup_def)
  with check_batch_checksum_only [OF batch]
  show "\<forall>y \<in> set (snd (CheckCommand_check e cmd items True (Some False) fs)).
          \<forall>cmdline. y \<noteq> Spawn cmdline"
    by simp
qed

theorem check_without_checkers_witness:
  "allAvailable no_tools_env = Inr [] \<and>
   CheckCommand_check no_tools_env sample_command [song ''a.mp3'' ''MP3'' (Some ''habc'')]
     False (Some True) [''a.mp3'' \<mapsto> ''abc'']
   = (Inl (UserError no_checkers_warning), []) \<and>
   CheckCommand_check no_tools_env sample_command [song ''a.mp3'' ''MP3'' (Some ''habc'')]
     True None [''a.mp3'' \<mapsto> ''abc'']
   = (Inr (),
      [LogWarn no_checkers_warning, LogOK ''a.mp3'',
       Print ''All checksums successfully verified''])"
  using check_without_checkers
    [where integrity_arg = "Some True" and cmd = sample_command and e = no_tools_env
       and items = "[song ''a.mp3'' ''MP3'' (Some ''habc'')]"
       and fs = "[''a.mp3'' \<mapsto> ''abc'']"]
    check_without_checkers
    [where integrity_arg = None and cmd = sample_command and e = no_tools_env
       and items = "[song ''a.mp3'' ''MP3'' (Some ''habc'')]"
       and fs = "[''a.mp3'' \<mapsto> ''abc'']"]
  by (simp add: check_unfold sample_unfold)

subsection \<open>Read-only validators leave the files alone\<close>




subsection \<open>One item of a check run\<close>









section \<open>export: properties\<close>

lemma printed_append: "printed (a @ b) = printed a @ printed b"
  by (induction a rule: printed.induct) simp_all

lemma printed_export_item: "printed (export_item e it) = concat (map export_line (stored_pair e it))"
  by (simp add: export_item_def stored_pair_def has_checksum_def export_line_def
        split: option.splits)

lemma printed_export:
  "printed (CheckCommand_export e items) = concat (map export_line (stored_pairs e items))"
  by (induction items)
     (simp_all add: CheckCommand_export_def stored_pairs_def printed_append printed_export_item)

lemma export_prints_only: "\<forall>x \<in> set (CheckCommand_export e items). \<exists>line. x = Print line"
  by (auto simp: CheckCommand_export_def export_item_def split: option.splits if_splits)

lemma split_newline_line:
  "CHR 0x0A \<notin> set l \<Longrightarrow> split_newline (l @ CHR 0x0A # rest) = l # split_newline rest"
  by (induction l) auto

lemma spec_lines_line:
  assumes "CHR 0x0A \<notin> set l"
  shows "spec_lines (l @ CHR 0x0A # rest) = l # spec_lines rest"
  using split_newline_not_Nil [of rest]
  by (simp add: spec_lines_def split_newline_line [OF assms])

lemma spec_parse_line_plain:
  assumes "CHR '' '' \<notin> set c"
  shows "spec_parse_line (c @ '' *'' @ p) = Some (c, p)"
proof -
  have all: "\<And>x. x \<in> set c \<Longrightarrow> x \<noteq> CHR '' ''" using assms by auto
  have "takeWhile (\<lambda>x. x \<noteq> CHR '' '') (c @ '' *'' @ p) = c"
    by (simp add: takeWhile_append2 [OF all])
  moreover have "dropWhile (\<lambda>x. x \<noteq> CHR '' '') (c @ '' *'' @ p) = '' *'' @ p"
    by (simp add: dropWhile_append2 [OF all])
  ultimately show ?thesis by (simp add: spec_parse_line_def)
qed

text \<open>A pair whose line can be read back: no newline in either part, no space in the checksum.\<close>

lemma parse_lines_of_pairs:
  assumes "\<forall>cp \<in> set ps. CHR '' '' \<notin> set (fst cp) \<and> CHR 0x0A \<notin> set (fst cp) \<and>
             CHR 0x0A \<notin> set (snd cp)"
  shows "spec_parse_export (concat (map export_line ps)) = ps"
  using assms
proof (induction ps)
  case Nil
  show ?case by (simp add: spec_parse_export_def spec_lines_def)
next
  case (Cons cp ps)
  obtain c p where cp: "cp = (c, p)" by (cases cp)
  from Cons.prems cp have c: "CHR '' '' \<notin> set c" "CHR 0x0A \<notin> set c" and p: "CHR 0x0A \<notin> set p"
    by simp_all
  from c p have line: "CHR 0x0A \<notin> set (c @ '' *'' @ p)" by simp
  have "concat (map export_line (cp # ps))
          = (c @ '' *'' @ p) @ CHR 0x0A # concat (map export_line ps)"
    by (simp add: cp export_line_def)
  then have "spec_lines (concat (map export_line (cp # ps)))
          = (c @ '' *'' @ p) # spec_lines (concat (map export_line ps))"
    by (simp only: spec_lines_line [OF line])
  moreover from Cons have "spec_parse_export (concat (map export_line ps)) = ps" by simp
  moreover have "spec_parse_line (c @ CHR '' '' # CHR ''*'' # p) = Some (c, p)"
    using spec_parse_line_plain [OF c(1), of p] by simp
  ultimately show ?case
    by (simp add: spec_parse_export_def cp)
qed

text \<open>
  C8, as the code has it. \<open>export\<close> prints one line \<open><checksum> *<path>\<close>, ended by a
  newline, for each selected item whose checksum is set and not empty, in the order of
  the items and with nothing else; it does nothing but print. When no displayed path
  holds a newline and no checksum holds a space or a newline, reading the output back
  gives exactly the pairs of those items.
\<close>

theorem export_round_trip:
  assumes "\<forall>it \<in> set items. \<forall>c. checksum it = Some c \<longrightarrow>
             CHR '' '' \<notin> set c \<and> CHR 0x0A \<notin> set c \<and>
             CHR 0x0A \<notin> set (displayable_path e (path it))"
  shows "printed (CheckCommand_export e items)
           = concat (map export_line (stored_pairs e items)) \<and>
         spec_parse_export (printed (CheckCommand_export e items)) = stored_pairs e items \<and>
         (\<forall>x \<in> set (CheckCommand_export e items). \<exists>line. x = Print line)"
proof -
  have "\<forall>cp \<in> set (stored_pairs e items).
          CHR '' '' \<notin> set (fst cp) \<and> CHR 0x0A \<notin> set (fst cp) \<and> CHR 0x0A \<notin> set (snd cp)"
    using assms
    by (auto simp: stored_pairs_def stored_pair_def split: option.splits if_splits)
  from parse_lines_of_pairs [OF this] printed_export export_prints_only
  show ?thesis by simp
qed

theorem export_round_trip_witness:
  "printed (CheckCommand_export sample_env
     [song ''a.mp3'' ''MP3'' (Some ''habc''), song ''b.mp3'' ''MP3'' None,
      song ''c d.mp3'' ''MP3'' (Some ''hxyz'')])
   = ''habc *a.mp3'' @ [CHR 0x0A] @ ''hxyz *c d.mp3'' @ [CHR 0x0A] \<and>
   spec_parse_export (printed (CheckCommand_export sample_env
     [song ''a.mp3'' ''MP3'' (Some ''habc''), song ''b.mp3'' ''MP3'' None,
      song ''c d.mp3'' ''MP3'' (Some ''hxyz'')]))
   = [(''habc'', ''a.mp3''), (''hxyz'', ''c d.mp3'')]"
proof -
  have "\<forall>it \<in> set [song ''a.mp3'' ''MP3'' (Some ''habc''), song ''b.mp3'' ''MP3'' None,
                    song ''c d.mp3'' ''MP3'' (Some ''hxyz'')].
          \<forall>c. checksum it = Some c \<longrightarrow>
            CHR '' '' \<notin> set c \<and> CHR 0x0A \<notin> set c \<and>
            CHR 0x0A \<notin> set (displayable_path sample_env (path it))"
    by (simp add: song_def sample_env_def)
  from export_round_trip [OF this]
  have out_eq: "printed (CheckCommand_export sample_env
       [song ''a.mp3'' ''MP3'' (Some ''habc''), song ''b.mp3'' ''MP3'' None,
        song ''c d.mp3'' ''MP3'' (Some ''hxyz'')])
     = concat (map export_line (stored_pairs sample_env
       [song ''a.mp3'' ''MP3'' (Some ''habc''), song ''b.mp3'' ''MP3'' None,
        song ''c d.mp3'' ''MP3'' (Some ''hxyz'')]))"
    and read_eq: "spec_parse_export (printed (CheckCommand_export sample_env
       [song ''a.mp3'' ''MP3'' (Some ''habc''), song ''b.mp3'' ''MP3'' None,
        song ''c d.mp3'' ''MP3'' (Some ''hxyz'')]))
     = stored_pairs sample_env
       [song ''a.mp3'' ''MP3'' (Some ''habc''), song ''b.mp3'' ''MP3'' None,
        song ''c d.mp3'' ''MP3'' (Some ''hxyz'')]"
    by blast+
  show ?thesis
  proof (intro conjI)
    show "printed (CheckCommand_export sample_env
       [song ''a.mp3'' ''MP3'' (Some ''habc''), song ''b.mp3'' ''MP3'' None,
        song ''c d.mp3'' ''MP3'' (Some ''hxyz'')])
     = ''habc *a.mp3'' @ [CHR 0x0A] @ ''hxyz *c d.mp3'' @ [CHR 0x0A]"
      unfolding out_eq
      by (simp add: stored_pairs_def stored_pair_def export_line_def sample_env_def song_def)
    show "spec_parse_export (printed (CheckCommand_export sample_env
       [song ''a.mp3'' ''MP3'' (Some ''habc''), song ''b.mp3'' ''MP3'' None,
        song ''c d.mp3'' ''MP3'' (Some ''hxyz'')]))
     = [(''habc'', ''a.mp3''), (''hxyz'', ''c d.mp3'')]"
      unfolding read_eq
      by (simp add: stored_pairs_def stored_pair_def sample_env_def song_def)
  qed
qed

text \<open>
  The round trip as the specification words it, for every stored set, fails: a catalog
  with one file whose path holds a newline and a catalog with two files give the same
  output, so no reader can give back the pairs of both. The reader of the format gives
  the pairs of the second.
\<close>

theorem export_not_injective:
  "printed (CheckCommand_export sample_env
      [song (''a'' @ [CHR 0x0A] @ ''hB *b'') ''MP3'' (Some ''hA'')])
   = printed (CheckCommand_export sample_env
      [song ''a'' ''MP3'' (Some ''hA''), song ''b'' ''MP3'' (Some ''hB'')]) \<and>
   set (stored_pairs sample_env [song (''a'' @ [CHR 0x0A] @ ''hB *b'') ''MP3'' (Some ''hA'')])
   \<noteq> set (stored_pairs sample_env
      [song ''a'' ''MP3'' (Some ''hA''), song ''b'' ''MP3'' (Some ''hB'')]) \<and>
   set (spec_parse_export (printed (CheckCommand_export sample_env
      [song (''a'' @ [CHR 0x0A] @ ''hB *b'') ''MP3'' (Some ''hA'')])))
   \<noteq> set (stored_pairs sample_env [song (''a'' @ [CHR 0x0A] @ ''hB *b'') ''MP3'' (Some ''hA'')])"
  by (simp add: CheckCommand_export_def export_item_def has_checksum_def stored_pairs_def
        stored_pair_def spec_parse_export_def spec_lines_def spec_parse_line_def
        sample_env_def song_def)

section \<open>fix: properties\<close>

lemma fixer_is_MP3Val:
  "fixer e it = Inr (Some c) \<Longrightarrow> c = MP3Val \<and> format it \<in> set (formats MP3Val)"
proof -
  assume "fixer e it = Inr (Some c)"
  then obtain av where "find (\<lambda>c. can_fix c it) av = Some c"
    by (auto simp: fixer_def split: sum.splits)
  then have "can_fix c it" by (auto simp: find_Some_iff)
  then show ?thesis by (cases c) simp_all
qed

lemma fixer_error: "fixer e it = Inl err \<Longrightarrow> \<exists>cmdline. err = CalledProcessError cmdline"
  by (auto simp: fixer_def allAvailable_def split: sum.splits dest: available_among_error)








text \<open>Which items the first pass of \<open>fix\<close> collects.\<close>

lemma integrity_violation_iff:
  "integrity_violation e fs it \<longleftrightarrow>
     (checksum it = None \<or> verify_checksum e fs it = Inr ()) \<and>
     fixer e it = Inr (Some MP3Val) \<and>
     (\<exists>reason. fst (run e MP3Val it fs) = Inl (IntegrityError (path it) reason))"
proof
  assume v: "integrity_violation e fs it"
  then obtain p reason where
    raised: "fst (fix_check_body e it fs) = Inl (IntegrityError p reason)"
    by (auto simp: integrity_violation_def split: sum.splits error.splits)
  have ok: "checksum it = None \<or> verify_checksum e fs it = Inr ()"
  proof (rule ccontr)
    assume "\<not> (checksum it = None \<or> verify_checksum e fs it = Inr ())"
    then obtain err where "checksum it \<noteq> None" and "verify_checksum e fs it = Inl err"
      by (cases "verify_checksum e fs it") auto
    with raised verify_checksum_error [of e fs it err] show False
      by (auto simp: fix_check_body_def)
  qed
  then have pre: "(if checksum it \<noteq> None then verify_checksum e fs it else Inr ()) = Inr ()"
    by auto
  obtain c where fx: "fixer e it = Inr (Some c)"
    using raised pre
    by (cases "fixer e it")
       (auto simp: fix_check_body_def split: option.splits dest: fixer_error)
  with fixer_is_MP3Val have c: "c = MP3Val" by blast
  obtain r1 fs1 ev1 where rn: "run e MP3Val it fs = (r1, fs1, ev1)"
    by (cases "run e MP3Val it fs") auto
  from raised pre fx c rn have r1: "r1 = Inl (IntegrityError p reason)"
    by (auto simp: fix_check_body_def IntegrityChecker_check_def split: sum.splits)
  with run_result [OF rn] have "p = path it" by auto
  with ok fx c rn r1 show
    "(checksum it = None \<or> verify_checksum e fs it = Inr ()) \<and>
     fixer e it = Inr (Some MP3Val) \<and>
     (\<exists>reason. fst (run e MP3Val it fs) = Inl (IntegrityError (path it) reason))"
    by auto
next
  assume "(checksum it = None \<or> verify_checksum e fs it = Inr ()) \<and>
     fixer e it = Inr (Some MP3Val) \<and>
     (\<exists>reason. fst (run e MP3Val it fs) = Inl (IntegrityError (path it) reason))"
  then show "integrity_violation e fs it"
    by (auto simp: integrity_violation_def fix_check_body_def IntegrityChecker_check_def
          split: prod.splits)
qed


subsection \<open>Repairing one file\<close>

lemma MP3Val_fix_events:
  assumes "MP3Val_fix e it backup fs = (r, fs1, evf)"
  shows "evf = [Spawn (repair_cmd it)] \<or>
         (r = Inr () \<and> evf = [Spawn (repair_cmd it), Remove (backup_path it)])"
proof -
  obtain res fs' where "popen e (repair_cmd it) fs = (res, fs')"
    by (cases "popen e (repair_cmd it) fs")
  with assms show ?thesis by (auto simp: MP3Val_fix_def split: if_splits)
qed



text \<open>
  A run applies its closure once to each element of the list, in order, up to the first
  exception: apart from the progress ticks, the events of the run are the events of
  these calls, one after the other.
\<close>

lemma progress_loop_traces:
  assumes quiet_func: "\<And>s x r ev. func s x = (r, ev) \<Longrightarrow> \<forall>y \<in> set ev. \<not> is_progress y"
  shows "progress_loop cmd func msg totl finished xs s = (r, ev) \<Longrightarrow>
         \<exists>traces. length traces \<le> length xs \<and>
           filter (\<lambda>y. \<not> is_progress y) ev = concat traces \<and>
           (\<forall>i < length traces. \<exists>s' r'. func s' (xs ! i) = (r', traces ! i))"
proof (induction xs arbitrary: finished s r ev)
  case Nil
  then have "ev = []" by auto
  then show ?case by simp
next
  case (Cons x xs)
  obtain r1 ev1 where step: "func s x = (r1, ev1)" by (cases "func s x")
  from quiet_func [OF step] have keep1: "filter (\<lambda>y. \<not> is_progress y) ev1 = ev1"
    by (simp add: filter_id_conv)
  show ?case
  proof (cases r1)
    case (Inl err)
    with step Cons.prems have "ev = ev1" by auto
    with keep1 step have
      "length [ev1] \<le> length (x # xs) \<and>
       filter (\<lambda>y. \<not> is_progress y) ev = concat [ev1] \<and>
       (\<forall>i < length [ev1]. \<exists>s' r'. func s' ((x # xs) ! i) = (r', [ev1] ! i))"
      by auto
    then show ?thesis by blast
  next
    case (Inr s1)
    obtain r2 ev2 where rest:
      "progress_loop cmd func msg totl (finished + 1) xs s1 = (r2, ev2)"
      by (cases "progress_loop cmd func msg totl (finished + 1) xs s1")
    from Cons.IH [OF rest] obtain traces where
      len: "length traces \<le> length xs" and
      cat: "filter (\<lambda>y. \<not> is_progress y) ev2 = concat traces" and
      calls: "\<forall>i < length traces. \<exists>s' r'. func s' (xs ! i) = (r', traces ! i)"
      by blast
    from step Inr rest Cons.prems
    have ev: "ev = ev1 @ log_progress cmd msg (finished + 1) totl @ ev2" by auto
    have tick: "filter (\<lambda>y. \<not> is_progress y) (log_progress cmd msg (finished + 1) totl) = []"
      by (simp add: log_progress_def)
    have "filter (\<lambda>y. \<not> is_progress y) ev = concat (ev1 # traces)"
      unfolding ev by (simp only: filter_append keep1 tick cat) simp
    moreover have "length (ev1 # traces) \<le> length (x # xs)" using len by simp
    moreover have "\<forall>i < length (ev1 # traces).
        \<exists>s' r'. func s' ((x # xs) ! i) = (r', (ev1 # traces) ! i)"
    proof (intro allI impI)
      fix i
      assume i: "i < length (ev1 # traces)"
      show "\<exists>s' r'. func s' ((x # xs) ! i) = (r', (ev1 # traces) ! i)"
      proof (cases i)
        case 0
        with step show ?thesis by auto
      next
        case (Suc j)
        with i have "j < length traces" by simp
        with calls Suc show ?thesis by simp
      qed
    qed
    ultimately show ?thesis by blast
  qed
qed

lemma fix_item_no_progress:
  assumes "fix_item e backup fs it = (r, ev)"
  shows "\<forall>y \<in> set ev. \<not> is_progress y"
proof -
  have "fixer e it = Inr (Some MP3Val) \<or> ev = []"
    using assms fixer_is_MP3Val [of e it]
    by (cases "fixer e it") (auto simp: fix_item_def split: option.splits)
  then show ?thesis
  proof
    assume "ev = []"
    then show ?thesis by simp
  next
    assume fx: "fixer e it = Inr (Some MP3Val)"
    obtain rf fs1 evf where rep: "MP3Val_fix e it backup fs = (rf, fs1, evf)"
      by (cases "MP3Val_fix e it backup fs") auto
    from MP3Val_fix_events [OF rep] have "\<forall>y \<in> set evf. \<not> is_progress y" by auto
    with fx rep assms show ?thesis
      by (auto simp: fix_item_def set_checksum_def Let_def split: sum.splits)
  qed
qed

text \<open>
  So in the second pass of \<open>fix\<close> every collected file is repaired at most once, and the
  events of the pass are the events of the files, file after file.
\<close>

lemma fix_pass_traces:
  assumes "execute_with_progress cmd (fix_item e backup) failed msg fs = (r, ev)"
  shows "\<exists>traces. length traces \<le> length failed \<and>
           filter (\<lambda>y. \<not> is_progress y) ev = concat traces \<and>
           (\<forall>i < length traces. \<exists>fs' r'. fix_item e backup fs' (failed ! i) = (r', traces ! i))"
proof -
  from assms have loop:
    "progress_loop cmd (fix_item e backup) msg (length failed) 0 failed fs = (r, ev)"
    by (simp add: execute_with_progress_def)
  show ?thesis
  proof (rule progress_loop_traces [where func = "fix_item e backup", OF _ loop])
    fix s x r' ev'
    assume "fix_item e backup s x = (r', ev')"
    then show "\<forall>y \<in> set ev'. \<not> is_progress y" by (rule fix_item_no_progress)
  qed
qed

end
